theory Spec2Isabelle
  imports Main
begin

section \<open>The typewriter sketch (arduino/typewriter/typewriter.ino)\<close>

subsection \<open>Vocabulary of the Arduino core\<close>

text \<open>
  Modelled from the spec: the logic levels \<^verbatim>\<open>HIGH\<close> and \<^verbatim>\<open>LOW\<close>. They are
  macros of the Arduino core, whose headers are not part of the repository; the spec names
  them as the idle level (electrically high, held by the pull-up) and the pressed level
  (electrically low). The core defines them as 0x1 and 0x0. \<^verbatim>\<open>digitalRead\<close> returns
  an \<^verbatim>\<open>int\<close> and the sketch keeps it in an \<^verbatim>\<open>int\<close>, so a level is an integer
  here; the proofs use of the two values only that they differ.
\<close>

definition HIGH :: int where
  "HIGH = 1"

definition LOW :: int where
  "LOW = 0"

text \<open>
  Modelled from the spec: the pin modes of the core's \<^verbatim>\<open>pinMode\<close>, of which the sketch
  uses \<^verbatim>\<open>INPUT_PULLUP\<close> (a digital input with the internal pull-up resistor).
\<close>

datatype pin_mode = INPUT | OUTPUT | INPUT_PULLUP

text \<open>
  Everything the sketch does to the outside world is one of these calls. A run of the
  program is observed as the list of the calls it made, in the order it made them;
  \<open>DigitalRead p v\<close> records that \<^verbatim>\<open>digitalRead(p)\<close> was called and returned \<open>v\<close>.
\<close>

datatype event =
    SerialBegin nat
  | PinMode int pin_mode
  | DigitalRead int int
  | SerialPrint char
  | SerialPrintln string
  | Delay nat

text \<open>The characters written by \<^verbatim>\<open>Serial.print(letters[i])\<close>, in order.\<close>

fun emitted :: "event list \<Rightarrow> string" where
  "emitted [] = []"
| "emitted (SerialPrint c # es) = c # emitted es"
| "emitted (e # es) = emitted es"

fun is_println :: "event \<Rightarrow> bool" where
  "is_println (SerialPrintln s) = True"
| "is_println e = False"

fun is_read :: "event \<Rightarrow> bool" where
  "is_read (DigitalRead p v) = True"
| "is_read e = False"

text \<open>
  \<open>delay_after_print es\<close>: in \<open>es\<close>, every \<^verbatim>\<open>Serial.print\<close> of a character is
  directly followed by \<^verbatim>\<open>delay(1000)\<close>.
\<close>

fun delay_after_print :: "event list \<Rightarrow> bool" where
  "delay_after_print [] = True"
| "delay_after_print (SerialPrint c # Delay d # es) = (d = 1000 \<and> delay_after_print es)"
| "delay_after_print (SerialPrint c # es) = False"
| "delay_after_print (e # es) = delay_after_print es"

subsection \<open>The global variables\<close>

definition numSwitches :: nat where
  "numSwitches = 20"

text \<open>
  The three global arrays. \<^verbatim>\<open>switchPins\<close> and \<^verbatim>\<open>letters\<close> are
  \<^verbatim>\<open>const\<close>; they are fields of the memory all the same, so that "the code does
  not write them" is a statement about the code and not about the model. In C each array
  has \<^verbatim>\<open>numSwitches\<close> entries and the loops stay below that index, so no access is out
  of range; a list here could have any length, and a statement that depends on entry \<open>i\<close>
  of \<^verbatim>\<open>prevStates\<close> being there assumes the length the array has.
\<close>

record globals =
  switchPins :: "int list"
  letters :: "char list"
  prevStates :: "int list"

text \<open>
  The memory when \<^verbatim>\<open>setup\<close> starts. The analog pin names \<^verbatim>\<open>A0\<close> ..
  \<^verbatim>\<open>A5\<close> are constants of the board's header, which is not part of the repository:
  \<open>A n\<close> is the pin number the board gives to \<^verbatim>\<open>An\<close>. \<^verbatim>\<open>prevStates\<close> has
  no initialiser, so C zero-initialises it.
\<close>

definition boot :: "(nat \<Rightarrow> int) \<Rightarrow> globals" where
  "boot A =
     \<lparr> switchPins =
         [0, 1, 2, 3, 4, 5, 6, 7, 8, 9,
          10, 11, 12, 13, A 5, A 4, A 3, A 2, A 1, A 0],
       letters =
         [CHR ''a'', CHR ''w'', CHR ''s'', CHR ''e'', CHR ''d'', CHR ''c'', CHR ''r'', CHR ''f'', CHR ''t'', CHR ''g'',
          CHR ''b'', CHR ''h'', CHR ''n'', CHR ''m'', CHR ''j'', CHR ''i'', CHR ''k'', CHR ''o'', CHR ''l'', CHR ''p''],
       prevStates = replicate numSwitches 0 \<rparr>"

text \<open>The numbering of the Arduino Uno (\<^verbatim>\<open>A0\<close> is pin 14), as a concrete board.\<close>

definition A_uno :: "nat \<Rightarrow> int" where
  "A_uno n = 14 + int n"

subsection \<open>The counting loop\<close>

text \<open>
  \<^verbatim>\<open>for (int i = lo; i < n; i++) body\<close>, where the body maps the memory to the new memory
  and the calls it made.
\<close>

function for_loop ::
  "(nat \<Rightarrow> globals \<Rightarrow> globals \<times> event list) \<Rightarrow> nat \<Rightarrow> nat \<Rightarrow> globals \<Rightarrow> globals \<times> event list"
where
  "for_loop body i n g =
     (if i < n then
        (case body i g of (g1, es1) \<Rightarrow>
           (case for_loop body (Suc i) n g1 of (g2, es2) \<Rightarrow> (g2, es1 @ es2)))
      else (g, []))"
  by pat_completeness auto
termination
  by (relation "measure (\<lambda>(body, i, n, g). n - i)") auto

declare for_loop.simps [simp del]

subsection \<open>setup\<close>

text \<open>
  The function is called \<open>setup'\<close> here: \<open>setup\<close> is a reserved word of Isabelle.
\<close>

definition setup_body :: "nat \<Rightarrow> globals \<Rightarrow> globals \<times> event list" where
  "setup_body i g =
     (g\<lparr>prevStates := (prevStates g)[i := HIGH]\<rparr>,
      [PinMode (switchPins g ! i) INPUT_PULLUP])"

definition setup' :: "globals \<Rightarrow> globals \<times> event list" where
  "setup' g =
     (case for_loop setup_body 0 numSwitches g of (g1, es) \<Rightarrow>
        (g1, SerialBegin 9600 # es @ [SerialPrintln ''Switch detection active.'']))"

subsection \<open>loop\<close>

text \<open>
  One scan. \<open>rd i\<close> is the value that \<^verbatim>\<open>digitalRead(switchPins[i])\<close> returns when the
  scan reaches channel \<open>i\<close>: the pins are read once each per scan, in table order.
\<close>

definition loop_body :: "(nat \<Rightarrow> int) \<Rightarrow> nat \<Rightarrow> globals \<Rightarrow> globals \<times> event list" where
  "loop_body rd i g =
     (let state = rd i in
        (g\<lparr>prevStates := (prevStates g)[i := state]\<rparr>,
         DigitalRead (switchPins g ! i) state #
         (if state = LOW \<and> prevStates g ! i = HIGH
          then [SerialPrint (letters g ! i), Delay 1000]
          else [])))"

definition loop :: "(nat \<Rightarrow> int) \<Rightarrow> globals \<Rightarrow> globals \<times> event list" where
  "loop rd g = for_loop (loop_body rd) 0 numSwitches g"

subsection \<open>The program\<close>

text \<open>
  The core's \<^verbatim>\<open>main\<close> calls \<^verbatim>\<open>setup\<close> once and then \<^verbatim>\<open>loop\<close> for ever.
  \<open>loops rds\<close> is a finite stretch of that: one scan for each element of \<open>rds\<close>, the
  element giving the levels read in that scan. \<open>run A rds\<close> is the program from power-on
  up to the end of scan number \<open>length rds\<close>.
\<close>

fun loops :: "(nat \<Rightarrow> int) list \<Rightarrow> globals \<Rightarrow> globals \<times> event list" where
  "loops [] g = (g, [])"
| "loops (rd # rds) g =
     (case loop rd g of (g1, es1) \<Rightarrow>
        (case loops rds g1 of (g2, es2) \<Rightarrow> (g2, es1 @ es2)))"

definition run :: "(nat \<Rightarrow> int) \<Rightarrow> (nat \<Rightarrow> int) list \<Rightarrow> globals \<times> event list" where
  "run A rds =
     (case setup' (boot A) of (g0, es0) \<Rightarrow>
        (case loops rds g0 of (g, es) \<Rightarrow> (g, es0 @ es)))"

text \<open>Channel \<open>i\<close> sees a press in a scan: it reads low and was high at the scan before.\<close>

definition edge :: "(nat \<Rightarrow> int) \<Rightarrow> globals \<Rightarrow> nat \<Rightarrow> bool" where
  "edge rd g i = (rd i = LOW \<and> prevStates g ! i = HIGH)"

section \<open>Basic facts\<close>

lemma HIGH_neq_LOW: "HIGH \<noteq> LOW"
  by (simp add: HIGH_def LOW_def)

lemma emitted_append: "emitted (es @ fs) = emitted es @ emitted fs"
  by (induction es rule: emitted.induct) simp_all

lemma for_loop_done: "n \<le> i \<Longrightarrow> for_loop body i n g = (g, [])"
  by (simp add: for_loop.simps)

lemma for_loop_step:
  "i < n \<Longrightarrow> for_loop body i n g =
     (fst (for_loop body (Suc i) n (fst (body i g))),
      snd (body i g) @ snd (for_loop body (Suc i) n (fst (body i g))))"
  by (subst for_loop.simps) (simp add: split_beta)

lemma for_loop_inv:
  assumes "\<And>k h. i \<le> k \<Longrightarrow> k < n \<Longrightarrow> P h \<Longrightarrow> P (fst (body k h))" and "P g"
  shows "P (fst (for_loop body i n g))"
  using assms
proof (induction body i n g rule: for_loop.induct)
  case (1 body i n g)
  show ?case
  proof (cases "i < n")
    case True
    have "P (fst (body i g))" using 1(2)[of i g] True 1(3) by simp
    moreover have "\<And>k h. Suc i \<le> k \<Longrightarrow> k < n \<Longrightarrow> P h \<Longrightarrow> P (fst (body k h))"
      using 1(2) by simp
    ultimately have "P (fst (for_loop body (Suc i) n (fst (body i g))))"
      using 1(1)[OF True, of "fst (body i g)" "snd (body i g)"] by simp
    then show ?thesis using True by (simp add: for_loop_step)
  next
    case False
    then show ?thesis using 1(3) by (simp add: for_loop_done)
  qed
qed

lemma loop_body_fst: "fst (loop_body rd i g) = g\<lparr>prevStates := (prevStates g)[i := rd i]\<rparr>"
  by (simp add: loop_body_def Let_def)

lemma loop_events:
  "snd (for_loop (loop_body rd) i n g) = concat (map (\<lambda>k. snd (loop_body rd k g)) [i..<n])"
proof (induction "n - i" arbitrary: i g)
  case 0
  then show ?case by (simp add: for_loop_done)
next
  case (Suc d)
  then have lt: "i < n" and d: "d = n - Suc i" by simp_all
  have same: "\<And>k. Suc i \<le> k \<Longrightarrow> snd (loop_body rd k (fst (loop_body rd i g))) = snd (loop_body rd k g)"
    by (simp add: loop_body_def Let_def)
  have "snd (for_loop (loop_body rd) (Suc i) n (fst (loop_body rd i g)))
          = concat (map (\<lambda>k. snd (loop_body rd k (fst (loop_body rd i g)))) [Suc i..<n])"
    using Suc(1)[OF d] .
  also have "\<dots> = concat (map (\<lambda>k. snd (loop_body rd k g)) [Suc i..<n])"
    by (rule arg_cong[where f = concat], rule map_cong[OF refl]) (simp add: same)
  finally show ?case using lt by (simp add: for_loop_step upt_conv_Cons)
qed

lemma loop_prev_nth:
  "prevStates (fst (for_loop (loop_body rd) i n g)) ! k =
     (if i \<le> k \<and> k < n \<and> k < length (prevStates g) then rd k else prevStates g ! k)"
proof (induction "n - i" arbitrary: i g)
  case 0
  then show ?case by (simp add: for_loop_done)
next
  case (Suc d)
  then have lt: "i < n" and d: "d = n - Suc i" by simp_all
  have step: "prevStates (fst (for_loop (loop_body rd) i n g)) ! k =
      (if Suc i \<le> k \<and> k < n \<and> k < length (prevStates g) then rd k
       else (prevStates g)[i := rd i] ! k)"
    using lt Suc(1)[OF d, of "fst (loop_body rd i g)"]
    by (simp add: for_loop_step loop_body_fst)
  consider "k < i" | "k = i" | "i < k" by linarith
  then show ?case
  proof cases
    case 1
    then show ?thesis using step by simp
  next
    case 2
    then show ?thesis using step lt by (cases "i < length (prevStates g)") (simp_all add: list_update_beyond)
  next
    case 3
    then show ?thesis using step by simp
  qed
qed

lemma emitted_concat: "emitted (concat ess) = concat (map emitted ess)"
  by (induction ess) (simp_all add: emitted_append)

lemma emitted_loop_body:
  "emitted (snd (loop_body rd k g)) = (if edge rd g k then [letters g ! k] else [])"
  by (simp add: loop_body_def Let_def edge_def)

lemma concat_map_if: "concat (map (\<lambda>k. if P k then [f k] else []) xs) = map f (filter P xs)"
  by (induction xs) simp_all

lemma emitted_for_loop:
  "emitted (snd (for_loop (loop_body rd) i n g)) =
     map (\<lambda>k. letters g ! k) (filter (edge rd g) [i..<n])"
  by (simp add: loop_events emitted_concat comp_def emitted_loop_body concat_map_if)

lemma emitted_loop:
  "emitted (snd (loop rd g)) = map (\<lambda>k. letters g ! k) (filter (edge rd g) [0..<numSwitches])"
  by (simp add: loop_def emitted_for_loop)

lemma loop_tables:
  "switchPins (fst (loop rd g)) = switchPins g \<and> letters (fst (loop rd g)) = letters g \<and>
   length (prevStates (fst (loop rd g))) = length (prevStates g)"
  unfolding loop_def
  by (rule for_loop_inv[where P = "\<lambda>h. switchPins h = switchPins g \<and> letters h = letters g \<and>
        length (prevStates h) = length (prevStates g)"])
     (simp_all add: loop_body_fst)

lemma loop_letters: "letters (fst (loop rd g)) = letters g"
  using loop_tables by blast

lemma loop_switchPins: "switchPins (fst (loop rd g)) = switchPins g"
  using loop_tables by blast

lemma loop_frame: "fst (loop rd g) = g\<lparr>prevStates := prevStates (fst (loop rd g))\<rparr>"
  by (rule globals.equality) (simp_all add: loop_letters loop_switchPins)

lemma loop_length: "length (prevStates (fst (loop rd g))) = length (prevStates g)"
  using loop_tables by blast

lemma loop_prev:
  "prevStates (fst (loop rd g)) ! k =
     (if k < numSwitches \<and> k < length (prevStates g) then rd k else prevStates g ! k)"
  by (simp add: loop_def loop_prev_nth)

lemma letters_boot:
  "letters (boot A) = ''awsedcrftgbhnmjikolp''"
  by (simp add: boot_def)

lemma distinct_letters_boot: "distinct (letters (boot A))"
  by (simp add: boot_def)

lemma length_letters_boot: "length (letters (boot A)) = numSwitches"
  by (simp add: boot_def numSwitches_def)

lemma count_list_upt: "count_list [i..<n] k = (if i \<le> k \<and> k < n then 1 else 0)"
  by (induction n) auto

lemma count_list_filter: "count_list (filter P xs) k = (if P k then count_list xs k else 0)"
  by (induction xs) auto

lemma count_list_map_nth:
  "distinct ys \<Longrightarrow> k < length ys \<Longrightarrow> \<forall>x \<in> set xs. x < length ys \<Longrightarrow>
     count_list (map (\<lambda>j. ys ! j) xs) (ys ! k) = count_list xs k"
  by (induction xs) (auto simp add: nth_eq_iff_index_eq)

lemma count_emitted_loop:
  assumes "i < numSwitches" and "letters g = letters (boot A)"
  shows "count_list (emitted (snd (loop rd g))) (letters g ! i) = (if edge rd g i then 1 else 0)"
proof -
  have "count_list (emitted (snd (loop rd g))) (letters g ! i)
          = count_list (filter (edge rd g) [0..<numSwitches]) i"
    unfolding emitted_loop using assms
    by (intro count_list_map_nth) (simp_all add: distinct_letters_boot length_letters_boot)
  then show ?thesis using assms(1) by (simp add: count_list_filter count_list_upt)
qed

lemma setup_body_fst: "fst (setup_body i g) = g\<lparr>prevStates := (prevStates g)[i := HIGH]\<rparr>"
  by (simp add: setup_body_def)

lemma setup_fst: "fst (setup' g) = fst (for_loop setup_body 0 numSwitches g)"
  by (simp add: setup'_def split_beta)

lemma setup_snd:
  "snd (setup' g) =
     SerialBegin 9600 # snd (for_loop setup_body 0 numSwitches g) @
     [SerialPrintln ''Switch detection active.'']"
  by (simp add: setup'_def split_beta)

lemma setup_events:
  "snd (for_loop setup_body i n g) = map (\<lambda>k. PinMode (switchPins g ! k) INPUT_PULLUP) [i..<n]"
proof (induction "n - i" arbitrary: i g)
  case 0
  then show ?case by (simp add: for_loop_done)
next
  case (Suc d)
  then have lt: "i < n" and d: "d = n - Suc i" by simp_all
  show ?case using lt Suc(1)[OF d, of "fst (setup_body i g)"]
    by (simp add: for_loop_step upt_conv_Cons setup_body_def)
qed

lemma setup_prev_nth:
  "prevStates (fst (for_loop setup_body i n g)) ! k =
     (if i \<le> k \<and> k < n \<and> k < length (prevStates g) then HIGH else prevStates g ! k)"
proof (induction "n - i" arbitrary: i g)
  case 0
  then show ?case by (simp add: for_loop_done)
next
  case (Suc d)
  then have lt: "i < n" and d: "d = n - Suc i" by simp_all
  have step: "prevStates (fst (for_loop setup_body i n g)) ! k =
      (if Suc i \<le> k \<and> k < n \<and> k < length (prevStates g) then HIGH
       else (prevStates g)[i := HIGH] ! k)"
    using lt Suc(1)[OF d, of "fst (setup_body i g)"]
    by (simp add: for_loop_step setup_body_fst)
  consider "k < i" | "k = i" | "i < k" by linarith
  then show ?case
  proof cases
    case 1
    then show ?thesis using step by simp
  next
    case 2
    then show ?thesis using step lt
      by (cases "i < length (prevStates g)") (simp_all add: list_update_beyond)
  next
    case 3
    then show ?thesis using step by simp
  qed
qed

lemma setup_tables:
  "switchPins (fst (setup' g)) = switchPins g \<and> letters (fst (setup' g)) = letters g \<and>
   length (prevStates (fst (setup' g))) = length (prevStates g)"
  unfolding setup_fst
  by (rule for_loop_inv[where P = "\<lambda>h. switchPins h = switchPins g \<and> letters h = letters g \<and>
        length (prevStates h) = length (prevStates g)"])
     (simp_all add: setup_body_fst)

lemma setup_frame: "fst (setup' g) = g\<lparr>prevStates := prevStates (fst (setup' g))\<rparr>"
  by (rule globals.equality) (simp_all add: setup_tables)

lemma setup_prev:
  "length (prevStates g) = numSwitches \<Longrightarrow>
     prevStates (fst (setup' g)) = replicate numSwitches HIGH"
  by (rule nth_equalityI) (simp_all add: setup_tables, simp add: setup_fst setup_prev_nth)

lemma length_prev_boot: "length (prevStates (boot A)) = numSwitches"
  by (simp add: boot_def)

lemma setup_boot_prev: "prevStates (fst (setup' (boot A))) = replicate numSwitches HIGH"
  by (simp add: setup_prev length_prev_boot)

lemma setup_boot_letters: "letters (fst (setup' (boot A))) = letters (boot A)"
  by (simp add: setup_tables)

lemma loop_prev_map:
  "length (prevStates g) = numSwitches \<Longrightarrow>
     prevStates (fst (loop rd g)) = map rd [0..<numSwitches]"
  by (rule nth_equalityI) (simp_all add: loop_length loop_prev)

lemma loops_Cons_fst: "fst (loops (rd # rds) g) = fst (loops rds (fst (loop rd g)))"
  by (simp add: split_beta)

lemma loops_Cons_snd:
  "snd (loops (rd # rds) g) = snd (loop rd g) @ snd (loops rds (fst (loop rd g)))"
  by (simp add: split_beta)

declare loops.simps(2) [simp del]

lemma loops_tables:
  "switchPins (fst (loops rds g)) = switchPins g \<and> letters (fst (loops rds g)) = letters g \<and>
   length (prevStates (fst (loops rds g))) = length (prevStates g)"
proof (induction rds arbitrary: g)
  case Nil
  show ?case by simp
next
  case (Cons rd rds)
  show ?case using Cons[of "fst (loop rd g)"] by (simp add: loops_Cons_fst loop_tables)
qed

lemma run_fst: "fst (run A rds) = fst (loops rds (fst (setup' (boot A))))"
  by (simp add: run_def split_beta)

lemma run_snd:
  "snd (run A rds) = snd (setup' (boot A)) @ snd (loops rds (fst (setup' (boot A))))"
  by (simp add: run_def split_beta)

lemma loops_prev:
  "length (prevStates g) = numSwitches \<Longrightarrow> rds \<noteq> [] \<Longrightarrow>
     prevStates (fst (loops rds g)) = map (last rds) [0..<numSwitches]"
proof (induction rds arbitrary: g)
  case Nil
  then show ?case by simp
next
  case (Cons rd rds)
  show ?case
  proof (cases "rds = []")
    case True
    then show ?thesis using Cons.prems(1) by (simp add: loops_Cons_fst loop_prev_map)
  next
    case False
    then show ?thesis
      using Cons.IH[of "fst (loop rd g)"] Cons.prems(1)
      by (simp add: loops_Cons_fst loop_length)
  qed
qed

lemma emitted_setup: "emitted (snd (setup' g)) = []"
proof -
  have "emitted (map (\<lambda>k. PinMode (f k) m) ks) = []" for f m and ks :: "nat list"
    by (induction ks) simp_all
  then show ?thesis by (simp add: setup_snd setup_events emitted_append)
qed

lemma emitted_run: "emitted (snd (run A rds)) = emitted (snd (loops rds (fst (setup' (boot A)))))"
  by (simp add: run_snd emitted_append emitted_setup)

lemma edge_fun: "edge rd g = (\<lambda>k. rd k = LOW \<and> prevStates g ! k = HIGH)"
  by (simp add: fun_eq_iff edge_def)

lemma loop_trace:
  "snd (loop rd g) =
     concat (map (\<lambda>k. DigitalRead (switchPins g ! k) (rd k) #
                       (if rd k = LOW \<and> prevStates g ! k = HIGH
                        then [SerialPrint (letters g ! k), Delay 1000] else []))
                 [0..<numSwitches])"
  by (simp add: loop_def loop_events loop_body_def Let_def)

lemma loop_body_trace:
  "snd (loop_body rd i g) =
     DigitalRead (switchPins g ! i) (rd i) #
     (if rd i = LOW \<and> prevStates g ! i = HIGH
      then [SerialPrint (letters g ! i), Delay 1000] else [])"
  by (simp add: loop_body_def Let_def)

lemma loop_trace_after:
  assumes "length (prevStates g) = numSwitches"
  shows "snd (loop r2 (fst (loop r1 g))) =
     concat (map (\<lambda>k. DigitalRead (switchPins g ! k) (r2 k) #
                       (if r2 k = LOW \<and> r1 k = HIGH
                        then [SerialPrint (letters g ! k), Delay 1000] else []))
                 [0..<numSwitches])"
  unfolding loop_trace
  by (rule arg_cong[where f = concat], rule map_cong[OF refl])
     (simp add: loop_switchPins loop_letters loop_prev assms)

lemma emitted_loop_after:
  assumes "length (prevStates g) = numSwitches"
  shows "emitted (snd (loop r2 (fst (loop r1 g)))) =
     map (\<lambda>k. letters g ! k) (filter (\<lambda>k. r2 k = LOW \<and> r1 k = HIGH) [0..<numSwitches])"
proof -
  have "filter (edge r2 (fst (loop r1 g))) [0..<numSwitches] =
        filter (\<lambda>k. r2 k = LOW \<and> r1 k = HIGH) [0..<numSwitches]"
    by (rule filter_cong[OF refl]) (simp add: edge_def loop_prev assms)
  then show ?thesis by (simp add: emitted_loop loop_letters)
qed

lemma upt_numSwitches:
  "[0..<numSwitches] = [0, 1, 2, 3, 4, 5, 6, 7, 8, 9, 10, 11, 12, 13, 14, 15, 16, 17, 18, 19]"
  unfolding numSwitches_def by (simp add: upt_rec)

lemma emitted_loops:
  assumes "length (prevStates g) = numSwitches"
  shows "emitted (snd (loops rds g)) =
     concat (map (\<lambda>(prev, rd). map (\<lambda>k. letters g ! k)
                                     (filter (\<lambda>k. rd k = LOW \<and> prev k = HIGH) [0..<numSwitches]))
                 (zip ((\<lambda>k. prevStates g ! k) # rds) rds))"
  using assms
proof (induction rds arbitrary: g)
  case Nil
  show ?case by simp
next
  case (Cons rd rds)
  let ?h = "fst (loop rd g)"
  let ?f = "\<lambda>(prev, r). map (\<lambda>k. letters g ! k)
               (filter (\<lambda>k. r k = LOW \<and> prev k = HIGH) [0..<numSwitches])"
  have first: "emitted (snd (loop rd g)) = ?f (\<lambda>k. prevStates g ! k, rd)"
    by (simp add: emitted_loop edge_fun)
  have len: "length (prevStates ?h) = numSwitches"
    using Cons.prems by (simp add: loop_length)
  have rest: "emitted (snd (loops rds ?h)) =
      concat (map ?f (zip ((\<lambda>k. prevStates ?h ! k) # rds) rds))"
    using Cons.IH[OF len] by (simp add: loop_letters)
  have "concat (map ?f (zip ((\<lambda>k. prevStates ?h ! k) # rds) rds)) =
        concat (map ?f (zip (rd # rds) rds))"
  proof (cases rds)
    case Nil
    then show ?thesis by simp
  next
    case (Cons r rs)
    have "filter (\<lambda>k. r k = LOW \<and> prevStates ?h ! k = HIGH) [0..<numSwitches] =
          filter (\<lambda>k. r k = LOW \<and> rd k = HIGH) [0..<numSwitches]"
      using \<open>length (prevStates g) = numSwitches\<close>
      by (intro filter_cong[OF refl]) (simp add: loop_prev)
    then show ?thesis using Cons by simp
  qed
  then show ?case using first rest
    by (simp add: loops_Cons_snd emitted_append)
qed

lemma emitted_run_presses:
  "emitted (snd (run A rds)) =
     concat (map (\<lambda>(prev, rd). map (\<lambda>k. letters (boot A) ! k)
                                     (filter (\<lambda>k. rd k = LOW \<and> prev k = HIGH) [0..<numSwitches]))
                 (zip ((\<lambda>k. HIGH) # rds) rds))"
proof -
  let ?g = "fst (setup' (boot A))"
  let ?f = "\<lambda>(prev, r). map (\<lambda>k. letters (boot A) ! k)
               (filter (\<lambda>k. r k = LOW \<and> prev k = HIGH) [0..<numSwitches])"
  have len: "length (prevStates ?g) = numSwitches" by (simp add: setup_boot_prev)
  have e: "emitted (snd (run A rds)) = concat (map ?f (zip ((\<lambda>k. prevStates ?g ! k) # rds) rds))"
    using emitted_loops[OF len, of rds] by (simp add: emitted_run setup_boot_letters)
  have "concat (map ?f (zip ((\<lambda>k. prevStates ?g ! k) # rds) rds)) =
        concat (map ?f (zip ((\<lambda>k. HIGH) # rds) rds))"
  proof (cases rds)
    case Nil
    then show ?thesis by simp
  next
    case (Cons r rs)
    have "filter (\<lambda>k. r k = LOW \<and> prevStates ?g ! k = HIGH) [0..<numSwitches] =
          filter (\<lambda>k. r k = LOW \<and> HIGH = HIGH) [0..<numSwitches]"
      by (intro filter_cong[OF refl]) (simp add: setup_boot_prev)
    then show ?thesis using Cons by simp
  qed
  then show ?thesis using e by simp
qed

section \<open>The claims\<close>

subsection \<open>C1: one symbol per press edge, nothing otherwise\<close>

text \<open>
  Claim C1. One scan makes exactly these calls: for each of the 20 channels in table order
  a read of its pin, followed by the print of its symbol and the delay when, and only when,
  the level read is low and its \<^verbatim>\<open>prevStates\<close> entry was high. So the characters a scan
  emits are the symbols of those channels and nothing else, and with the symbol table of the
  sketch the symbol of channel \<open>i\<close> is emitted exactly once in that case and not at all
  otherwise. For two consecutive scans, reading \<open>r1\<close> and then \<open>r2\<close>, the second scan emits
  the symbol of channel \<open>i\<close> exactly once when the pin went from high (in \<open>r1\<close>) to low (in
  \<open>r2\<close>), and a channel whose pin made no such transition emits nothing in it.
\<close>

theorem C1_edge_emits_exactly_once:
  assumes "i < numSwitches" and "letters g = letters (boot A)"
  shows
    "snd (loop rd g) =
       concat (map (\<lambda>k. DigitalRead (switchPins g ! k) (rd k) #
                         (if rd k = LOW \<and> prevStates g ! k = HIGH
                          then [SerialPrint (letters g ! k), Delay 1000] else []))
                   [0..<numSwitches]) \<and>
     emitted (snd (loop rd g)) =
       map (\<lambda>k. letters g ! k)
           (filter (\<lambda>k. rd k = LOW \<and> prevStates g ! k = HIGH) [0..<numSwitches]) \<and>
     count_list (emitted (snd (loop rd g))) (letters g ! i) =
       (if rd i = LOW \<and> prevStates g ! i = HIGH then 1 else 0) \<and>
     (length (prevStates g) = numSwitches \<longrightarrow>
        snd (loop r2 (fst (loop r1 g))) =
          concat (map (\<lambda>k. DigitalRead (switchPins g ! k) (r2 k) #
                            (if r2 k = LOW \<and> r1 k = HIGH
                             then [SerialPrint (letters g ! k), Delay 1000] else []))
                      [0..<numSwitches]) \<and>
        emitted (snd (loop r2 (fst (loop r1 g)))) =
          map (\<lambda>k. letters g ! k)
              (filter (\<lambda>k. r2 k = LOW \<and> r1 k = HIGH) [0..<numSwitches]) \<and>
        count_list (emitted (snd (loop r2 (fst (loop r1 g))))) (letters g ! i) =
          (if r2 i = LOW \<and> r1 i = HIGH then 1 else 0))"
proof (intro conjI impI)
  show "snd (loop rd g) =
       concat (map (\<lambda>k. DigitalRead (switchPins g ! k) (rd k) #
                         (if rd k = LOW \<and> prevStates g ! k = HIGH
                          then [SerialPrint (letters g ! k), Delay 1000] else []))
                   [0..<numSwitches])"
    by (rule loop_trace)
  show "emitted (snd (loop rd g)) =
       map (\<lambda>k. letters g ! k)
           (filter (\<lambda>k. rd k = LOW \<and> prevStates g ! k = HIGH) [0..<numSwitches])"
    by (simp add: emitted_loop edge_fun)
  show "count_list (emitted (snd (loop rd g))) (letters g ! i) =
       (if rd i = LOW \<and> prevStates g ! i = HIGH then 1 else 0)"
    using count_emitted_loop[OF assms] by (simp add: edge_def)
next
  assume len: "length (prevStates g) = numSwitches"
  show "snd (loop r2 (fst (loop r1 g))) =
          concat (map (\<lambda>k. DigitalRead (switchPins g ! k) (r2 k) #
                            (if r2 k = LOW \<and> r1 k = HIGH
                             then [SerialPrint (letters g ! k), Delay 1000] else []))
                      [0..<numSwitches])"
    using len by (rule loop_trace_after)
  show "emitted (snd (loop r2 (fst (loop r1 g)))) =
          map (\<lambda>k. letters g ! k)
              (filter (\<lambda>k. r2 k = LOW \<and> r1 k = HIGH) [0..<numSwitches])"
    using len by (rule emitted_loop_after)
  have l: "letters (fst (loop r1 g)) = letters (boot A)"
    using assms(2) by (simp add: loop_letters)
  have "prevStates (fst (loop r1 g)) ! i = r1 i"
    using assms(1) len by (simp add: loop_prev)
  then show "count_list (emitted (snd (loop r2 (fst (loop r1 g))))) (letters g ! i) =
          (if r2 i = LOW \<and> r1 i = HIGH then 1 else 0)"
    using count_emitted_loop[OF assms(1) l, of r2] by (simp add: edge_def loop_letters)
qed

text \<open>
  After \<^verbatim>\<open>setup\<close> on the Uno: a scan in which channel 0 is pressed emits \<^verbatim>\<open>a\<close>;
  the next scan, with channel 0 still held and channel 1 newly pressed, emits only
  \<^verbatim>\<open>w\<close>; a next scan with channel 0 still held and nothing else pressed emits nothing.
\<close>

theorem C1_witness:
  "emitted (snd (loop (\<lambda>k. if k = 0 then LOW else HIGH) (fst (setup' (boot A_uno))))) = ''a'' \<and>
   count_list (emitted (snd (loop (\<lambda>k. if k = 0 then LOW else HIGH) (fst (setup' (boot A_uno))))))
     (CHR ''a'') = 1 \<and>
   emitted (snd (loop (\<lambda>k. if k = 0 \<or> k = 1 then LOW else HIGH)
                  (fst (loop (\<lambda>k. if k = 0 then LOW else HIGH) (fst (setup' (boot A_uno))))))) = ''w'' \<and>
   count_list (emitted (snd (loop (\<lambda>k. if k = 0 \<or> k = 1 then LOW else HIGH)
                  (fst (loop (\<lambda>k. if k = 0 then LOW else HIGH) (fst (setup' (boot A_uno))))))))
     (CHR ''a'') = 0 \<and>
   emitted (snd (loop (\<lambda>k. if k = 0 then LOW else HIGH)
                  (fst (loop (\<lambda>k. if k = 0 then LOW else HIGH) (fst (setup' (boot A_uno))))))) = []"
proof -
  let ?g = "fst (setup' (boot A_uno))"
  let ?p = "\<lambda>k::nat. if k = 0 then LOW else HIGH"
  let ?q = "\<lambda>k::nat. if k = 0 \<or> k = 1 then LOW else HIGH"
  have n: "(0::nat) < numSwitches" by (simp add: numSwitches_def)
  have l: "letters ?g = letters (boot A_uno)" by (rule setup_boot_letters)
  have len: "length (prevStates ?g) = numSwitches" by (simp add: setup_boot_prev)
  have p: "prevStates ?g = replicate 20 HIGH"
    by (simp add: setup_boot_prev numSwitches_def)
  have t: "letters ?g = ''awsedcrftgbhnmjikolp''" by (simp add: l letters_boot)
  note one = C1_edge_emits_exactly_once[OF n l, where rd = ?p and ?r1.0 = ?p and ?r2.0 = ?q]
  note two = C1_edge_emits_exactly_once[OF n l, where rd = ?p and ?r1.0 = ?p and ?r2.0 = ?p]
  have a: "emitted (snd (loop ?p ?g)) = ''a''"
    using one HIGH_neq_LOW by (simp add: upt_numSwitches p t)
  have b: "emitted (snd (loop ?q (fst (loop ?p ?g)))) = ''w''"
    using one len HIGH_neq_LOW by (simp add: upt_numSwitches t)
  have c: "emitted (snd (loop ?p (fst (loop ?p ?g)))) = []"
    using two len HIGH_neq_LOW by (simp add: upt_numSwitches t)
  show ?thesis using a b c by simp
qed

subsection \<open>C2: edge-triggered emission\<close>

lemma held_emits_nothing:
  assumes "i < numSwitches" and "letters g = letters (boot A)"
    and "length (prevStates g) = numSwitches" and "prevStates g ! i \<noteq> HIGH"
    and "\<forall>rd \<in> set rds. rd i = LOW"
  shows "count_list (emitted (snd (loops rds g))) (letters g ! i) = 0"
  using assms
proof (induction rds arbitrary: g)
  case Nil
  show ?case by simp
next
  case (Cons rd rds)
  let ?h = "fst (loop rd g)"
  have now: "count_list (emitted (snd (loop rd g))) (letters g ! i) = 0"
    using count_emitted_loop[OF Cons.prems(1,2), of rd] Cons.prems(4) by (simp add: edge_def)
  have "prevStates ?h ! i = LOW"
    using Cons.prems(1,3,5) by (simp add: loop_prev)
  then have "prevStates ?h ! i \<noteq> HIGH" using HIGH_neq_LOW by simp
  then have "count_list (emitted (snd (loops rds ?h))) (letters ?h ! i) = 0"
    using Cons.prems by (intro Cons.IH) (simp_all add: loop_letters loop_length)
  then show ?case using now
    by (simp add: loops_Cons_snd emitted_append loop_letters)
qed

lemma press_and_hold_emits_once:
  assumes "i < numSwitches" and "letters g = letters (boot A)"
    and "length (prevStates g) = numSwitches" and "prevStates g ! i = HIGH"
    and "rds \<noteq> []" and "\<forall>rd \<in> set rds. rd i = LOW"
  shows "count_list (emitted (snd (loops rds g))) (letters g ! i) = 1"
proof -
  obtain rd rest where rds: "rds = rd # rest" using assms(5) by (cases rds) auto
  let ?h = "fst (loop rd g)"
  have low: "rd i = LOW" and lows: "\<forall>r \<in> set rest. r i = LOW" using assms(6) rds by simp_all
  have first: "count_list (emitted (snd (loop rd g))) (letters g ! i) = 1"
    using count_emitted_loop[OF assms(1,2), of rd] low assms(4) by (simp add: edge_def)
  have "prevStates ?h ! i = LOW" using assms(1,3) low by (simp add: loop_prev)
  then have "prevStates ?h ! i \<noteq> HIGH" using HIGH_neq_LOW by simp
  then have "count_list (emitted (snd (loops rest ?h))) (letters ?h ! i) = 0"
    using assms(1,2,3) lows by (intro held_emits_nothing) (simp_all add: loop_letters loop_length)
  then show ?thesis using first
    by (simp add: rds loops_Cons_snd emitted_append loop_letters)
qed

lemma filter_eq_upt: "filter (\<lambda>k. k = i) [0..<n] = (if i < n then [i] else [])"
  by (induction n) auto

lemma held_alone_emits_nothing:
  assumes "i < numSwitches" and "length (prevStates g) = numSwitches"
    and "prevStates g ! i \<noteq> HIGH"
    and "\<forall>r \<in> set rds. \<forall>k<numSwitches. r k = (if k = i then LOW else HIGH)"
  shows "emitted (snd (loops rds g)) = []"
  using assms
proof (induction rds arbitrary: g)
  case Nil
  show ?case by simp
next
  case (Cons rd rds)
  let ?h = "fst (loop rd g)"
  have rd: "\<forall>k<numSwitches. rd k = (if k = i then LOW else HIGH)"
    using Cons.prems(4) by simp
  have "filter (edge rd g) [0..<numSwitches] = filter (\<lambda>k. False) [0..<numSwitches]"
    using rd Cons.prems(3) HIGH_neq_LOW by (intro filter_cong[OF refl]) (auto simp add: edge_def)
  then have now: "emitted (snd (loop rd g)) = []"
    by (simp add: emitted_loop)
  have "prevStates ?h ! i = LOW"
    using Cons.prems(1,2) rd by (simp add: loop_prev)
  then have "prevStates ?h ! i \<noteq> HIGH" using HIGH_neq_LOW by simp
  then have "emitted (snd (loops rds ?h)) = []"
    using Cons.prems by (intro Cons.IH) (simp_all add: loop_length)
  then show ?case using now by (simp add: loops_Cons_snd emitted_append)
qed

lemma press_and_hold_alone:
  assumes "i < numSwitches" and "length (prevStates g) = numSwitches"
    and "prevStates g ! i = HIGH" and "rds \<noteq> []"
    and "\<forall>r \<in> set rds. \<forall>k<numSwitches. r k = (if k = i then LOW else HIGH)"
  shows "emitted (snd (loops rds g)) = [letters g ! i]"
proof -
  obtain rd rest where rds: "rds = rd # rest" using assms(4) by (cases rds) auto
  let ?h = "fst (loop rd g)"
  have rd: "\<forall>k<numSwitches. rd k = (if k = i then LOW else HIGH)"
    and rest: "\<forall>r \<in> set rest. \<forall>k<numSwitches. r k = (if k = i then LOW else HIGH)"
    using assms(5) rds by simp_all
  have "filter (edge rd g) [0..<numSwitches] = filter (\<lambda>k. k = i) [0..<numSwitches]"
    using rd assms(3) HIGH_neq_LOW by (intro filter_cong[OF refl]) (auto simp add: edge_def)
  then have first: "emitted (snd (loop rd g)) = [letters g ! i]"
    using assms(1) by (simp add: emitted_loop filter_eq_upt)
  have "prevStates ?h ! i = LOW" using assms(1,2) rd by (simp add: loop_prev)
  then have "prevStates ?h ! i \<noteq> HIGH" using HIGH_neq_LOW by simp
  then have "emitted (snd (loops rest ?h)) = []"
    using assms(1,2) rest by (intro held_alone_emits_nothing[of i]) (simp_all add: loop_length)
  then show ?thesis using first by (simp add: rds loops_Cons_snd emitted_append)
qed

lemma quiet_scan:
  assumes "\<forall>k<numSwitches. \<not> (rd k = LOW \<and> prevStates g ! k = HIGH)"
  shows "snd (loop rd g) = map (\<lambda>k. DigitalRead (switchPins g ! k) (rd k)) [0..<numSwitches]"
proof -
  have m: "map (\<lambda>k. DigitalRead (switchPins g ! k) (rd k) #
               (if rd k = LOW \<and> prevStates g ! k = HIGH
                then [SerialPrint (letters g ! k), Delay 1000] else [])) [0..<numSwitches] =
        map (\<lambda>k. [DigitalRead (switchPins g ! k) (rd k)]) [0..<numSwitches]"
    using assms by (intro map_cong[OF refl]) simp
  show ?thesis unfolding loop_trace m by (simp only: concat_map_singleton)
qed

lemma emitted_map_read: "emitted (map (\<lambda>k. DigitalRead (f k) (r k)) ks) = []"
  by (induction ks) simp_all

text \<open>
  Claim C2. Emission is edge-triggered. For each of the 20 channels: when the channel was
  high and then reads low in every one of \<open>N \<ge> 1\<close> consecutive scans (\<open>rds\<close>, one element
  per scan), its symbol is emitted exactly once in those scans together; when moreover the
  other channels read high in all of them, that one symbol is all that the \<open>N\<close> scans emit.
  A release emits nothing: the step of a scan for a channel that was low and reads high
  makes the read and no other call, so it does not emit the channel's symbol or anything
  else; a scan in which no channel goes from high to low makes its 20 reads and no other
  call, as does a scan in which every channel reads high.
\<close>

theorem C2_hold_emits_once_release_emits_nothing:
  assumes "i < numSwitches" and "letters g = letters (boot A)"
    and "length (prevStates g) = numSwitches"
  shows "(prevStates g ! i = HIGH \<and> rds \<noteq> [] \<and> (\<forall>r \<in> set rds. r i = LOW) \<longrightarrow>
            count_list (emitted (snd (loops rds g))) (letters g ! i) = 1) \<and>
         (prevStates g ! i = HIGH \<and> rds \<noteq> [] \<and>
          (\<forall>r \<in> set rds. \<forall>k<numSwitches. r k = (if k = i then LOW else HIGH)) \<longrightarrow>
            emitted (snd (loops rds g)) = [letters g ! i]) \<and>
         (prevStates g ! i = LOW \<and> rd i = HIGH \<longrightarrow>
            snd (loop_body rd i g) = [DigitalRead (switchPins g ! i) HIGH] \<and>
            emitted (snd (loop_body rd i g)) = [] \<and>
            count_list (emitted (snd (loop rd g))) (letters g ! i) = 0) \<and>
         ((\<forall>k<numSwitches. \<not> (rd k = LOW \<and> prevStates g ! k = HIGH)) \<longrightarrow>
            snd (loop rd g) = map (\<lambda>k. DigitalRead (switchPins g ! k) (rd k)) [0..<numSwitches] \<and>
            emitted (snd (loop rd g)) = []) \<and>
         snd (loop (\<lambda>k. HIGH) g) = map (\<lambda>k. DigitalRead (switchPins g ! k) HIGH) [0..<numSwitches] \<and>
         emitted (snd (loop (\<lambda>k. HIGH) g)) = []"
proof (intro conjI impI)
  assume "prevStates g ! i = HIGH \<and> rds \<noteq> [] \<and> (\<forall>r \<in> set rds. r i = LOW)"
  then show "count_list (emitted (snd (loops rds g))) (letters g ! i) = 1"
    using press_and_hold_emits_once[OF assms] by simp
next
  assume "prevStates g ! i = HIGH \<and> rds \<noteq> [] \<and>
          (\<forall>r \<in> set rds. \<forall>k<numSwitches. r k = (if k = i then LOW else HIGH))"
  then show "emitted (snd (loops rds g)) = [letters g ! i]"
    using press_and_hold_alone[OF assms(1,3), of rds] by simp
next
  assume r: "prevStates g ! i = LOW \<and> rd i = HIGH"
  then show "snd (loop_body rd i g) = [DigitalRead (switchPins g ! i) HIGH]"
    using HIGH_neq_LOW by (simp add: loop_body_trace)
  then show "emitted (snd (loop_body rd i g)) = []" by simp
  show "count_list (emitted (snd (loop rd g))) (letters g ! i) = 0"
    using r count_emitted_loop[OF assms(1,2), of rd] HIGH_neq_LOW by (simp add: edge_def)
next
  assume q: "\<forall>k<numSwitches. \<not> (rd k = LOW \<and> prevStates g ! k = HIGH)"
  then show "snd (loop rd g) = map (\<lambda>k. DigitalRead (switchPins g ! k) (rd k)) [0..<numSwitches]"
    by (rule quiet_scan)
  then show "emitted (snd (loop rd g)) = []" by (simp add: emitted_map_read)
next
  have q: "\<forall>k<numSwitches. \<not> ((\<lambda>k. HIGH) k = LOW \<and> prevStates g ! k = HIGH)"
    using HIGH_neq_LOW by simp
  show "snd (loop (\<lambda>k. HIGH) g) = map (\<lambda>k. DigitalRead (switchPins g ! k) HIGH) [0..<numSwitches]"
    using quiet_scan[OF q] by simp
  then show "emitted (snd (loop (\<lambda>k. HIGH) g)) = []" by (simp add: emitted_map_read)
qed

text \<open>
  On the Uno after \<^verbatim>\<open>setup\<close>: channel 0 pressed and held for three scans emits one
  \<^verbatim>\<open>a\<close>; releasing it then emits nothing; and the scenario of the spec (press, hold,
  release, press again) emits \<^verbatim>\<open>aa\<close>.
\<close>

theorem C2_witness:
  "count_list
     (emitted (snd (loops [\<lambda>k. if k = 0 then LOW else HIGH, \<lambda>k. if k = 0 then LOW else HIGH,
                           \<lambda>k. if k = 0 then LOW else HIGH]
                      (fst (setup' (boot A_uno))))))
     (CHR ''a'') = 1 \<and>
   emitted (snd (loops [\<lambda>k. if k = 0 then LOW else HIGH, \<lambda>k. if k = 0 then LOW else HIGH,
                        \<lambda>k. if k = 0 then LOW else HIGH]
                   (fst (setup' (boot A_uno))))) = ''a'' \<and>
   snd (loop_body (\<lambda>k. HIGH) 0
          (fst (loop (\<lambda>k. if k = 0 then LOW else HIGH) (fst (setup' (boot A_uno)))))) =
     [DigitalRead 0 HIGH] \<and>
   emitted (snd (loop (\<lambda>k. HIGH)
                   (fst (loop (\<lambda>k. if k = 0 then LOW else HIGH) (fst (setup' (boot A_uno))))))) = [] \<and>
   count_list
     (emitted (snd (loop (\<lambda>k. HIGH)
                      (fst (loop (\<lambda>k. if k = 0 then LOW else HIGH) (fst (setup' (boot A_uno))))))))
     (CHR ''a'') = 0 \<and>
   emitted (snd (run A_uno [\<lambda>k. if k = 0 then LOW else HIGH, \<lambda>k. if k = 0 then LOW else HIGH,
                            \<lambda>k. HIGH, \<lambda>k. if k = 0 then LOW else HIGH])) = ''aa''"
proof -
  let ?g = "fst (setup' (boot A_uno))"
  let ?p = "\<lambda>k::nat. if k = 0 then LOW else HIGH"
  let ?idle = "\<lambda>k::nat. HIGH"
  let ?h = "fst (loop ?p ?g)"
  have n: "(0::nat) < numSwitches" by (simp add: numSwitches_def)
  have lg: "letters ?g = letters (boot A_uno)" by (rule setup_boot_letters)
  have lh: "letters ?h = letters (boot A_uno)" by (simp add: loop_letters lg)
  have ng: "length (prevStates ?g) = numSwitches" by (simp add: setup_boot_prev)
  have nh: "length (prevStates ?h) = numSwitches" by (simp add: loop_length ng)
  have pg: "prevStates ?g ! 0 = HIGH" by (simp add: setup_boot_prev numSwitches_def)
  have ph: "prevStates ?h ! 0 = LOW" using n ng by (simp add: loop_prev)
  have a: "letters (boot A_uno) ! 0 = CHR ''a''" by (simp add: letters_boot)
  have s: "switchPins ?h ! 0 = 0"
    by (simp add: loop_switchPins setup_tables boot_def)
  have quiet: "\<forall>k<numSwitches. \<not> (?idle k = LOW \<and> prevStates ?h ! k = HIGH)"
    using HIGH_neq_LOW by simp
  have hold: "count_list (emitted (snd (loops [?p, ?p, ?p] ?g))) (CHR ''a'') = 1 \<and>
      emitted (snd (loops [?p, ?p, ?p] ?g)) = ''a''"
    using C2_hold_emits_once_release_emits_nothing[OF n lg ng, where rds = "[?p, ?p, ?p]"]
    by (simp add: pg lg a)
  have release: "snd (loop_body ?idle 0 ?h) = [DigitalRead 0 HIGH] \<and>
      emitted (snd (loop ?idle ?h)) = [] \<and>
      count_list (emitted (snd (loop ?idle ?h))) (CHR ''a'') = 0"
    using C2_hold_emits_once_release_emits_nothing[OF n lh nh, where rd = ?idle] quiet
    by (simp add: ph lh a s emitted_map_read)
  have scenario: "emitted (snd (run A_uno [?p, ?p, ?idle, ?p])) = ''aa''"
    using HIGH_neq_LOW by (simp add: emitted_run_presses upt_numSwitches letters_boot)
  show ?thesis using hold release scenario by simp
qed

subsection \<open>C3: the channel table\<close>

text \<open>
  Claim C3, as stated, lists sixteen pins (0 to 9, then A5 down to A0) for the twenty
  symbols. The table of the sketch has twenty pins: 0 to 13, then A5 down to A0. On the
  Arduino Uno the pin list of the claim is not the pin list of the sketch, and pairing the
  claim's pins with the symbols in order is not the pairing of the sketch (the claim gives
  \<^verbatim>\<open>'b'\<close> to A5, the sketch gives it to pin 10).
\<close>

theorem C3_counterexample:
  "switchPins (boot A_uno) \<noteq>
     [0, 1, 2, 3, 4, 5, 6, 7, 8, 9, A_uno 5, A_uno 4, A_uno 3, A_uno 2, A_uno 1, A_uno 0] \<and>
   zip (switchPins (boot A_uno)) (letters (boot A_uno)) \<noteq>
     zip [0, 1, 2, 3, 4, 5, 6, 7, 8, 9, A_uno 5, A_uno 4, A_uno 3, A_uno 2, A_uno 1, A_uno 0]
         ''awsedcrftgbhnmjikolp'' \<and>
   zip (switchPins (boot A_uno)) (letters (boot A_uno)) ! 10 = (10, CHR ''b'') \<and>
   zip [0, 1, 2, 3, 4, 5, 6, 7, 8, 9, A_uno 5, A_uno 4, A_uno 3, A_uno 2, A_uno 1, A_uno 0]
       ''awsedcrftgbhnmjikolp'' ! 10 = (19, CHR ''b'')"
  by (simp add: boot_def A_uno_def)

text \<open>
  Claim C3, amended. The table maps, in order, pins 0 to 13 followed by A5, A4, A3, A2, A1,
  A0 to the symbols a, w, s, e, d, c, r, f, t, g, b, h, n, m, j, i, k, o, l, p; and it is
  still that table after \<^verbatim>\<open>setup\<close> and any number of scans.
\<close>

theorem C3_channel_table:
  "zip (switchPins (boot A)) (letters (boot A)) =
     [(0, CHR ''a''), (1, CHR ''w''), (2, CHR ''s''), (3, CHR ''e''), (4, CHR ''d''),
      (5, CHR ''c''), (6, CHR ''r''), (7, CHR ''f''), (8, CHR ''t''), (9, CHR ''g''),
      (10, CHR ''b''), (11, CHR ''h''), (12, CHR ''n''), (13, CHR ''m''),
      (A 5, CHR ''j''), (A 4, CHR ''i''), (A 3, CHR ''k''), (A 2, CHR ''o''),
      (A 1, CHR ''l''), (A 0, CHR ''p'')] \<and>
   zip (switchPins (fst (run A rds))) (letters (fst (run A rds))) =
     zip (switchPins (boot A)) (letters (boot A))"
  by (simp add: boot_def run_def split_beta loops_tables setup_tables)

subsection \<open>C4: what prevStates holds\<close>

text \<open>
  Claim C4. After \<^verbatim>\<open>setup\<close>, that is before the first scan, every entry of
  \<^verbatim>\<open>prevStates\<close> is high. The step of a scan for channel \<open>i\<close> leaves the level it has
  just read in entry \<open>i\<close>, with no condition on whether an edge was seen; so a whole scan
  leaves the levels it read, and so does the last scan of a run.
\<close>

theorem C4_prevStates_tracks_last_reading:
  "prevStates (fst (setup' (boot A))) = replicate numSwitches HIGH \<and>
   prevStates (fst (run A [])) = replicate numSwitches HIGH \<and>
   (i < numSwitches \<and> length (prevStates g) = numSwitches \<longrightarrow>
      prevStates (fst (loop_body rd i g)) ! i = rd i) \<and>
   (length (prevStates g) = numSwitches \<longrightarrow>
      prevStates (fst (loop rd g)) = map rd [0..<numSwitches]) \<and>
   (rds \<noteq> [] \<longrightarrow> prevStates (fst (run A rds)) = map (last rds) [0..<numSwitches])"
proof (intro conjI impI)
  show "prevStates (fst (setup' (boot A))) = replicate numSwitches HIGH"
    by (rule setup_boot_prev)
  show "prevStates (fst (run A [])) = replicate numSwitches HIGH"
    by (simp add: run_fst setup_boot_prev)
  show "prevStates (fst (loop_body rd i g)) ! i = rd i"
    if "i < numSwitches \<and> length (prevStates g) = numSwitches"
    using that by (simp add: loop_body_fst)
  show "prevStates (fst (loop rd g)) = map rd [0..<numSwitches]"
    if "length (prevStates g) = numSwitches"
    using that by (rule loop_prev_map)
  show "prevStates (fst (run A rds)) = map (last rds) [0..<numSwitches]" if "rds \<noteq> []"
    using that by (simp add: run_fst loops_prev setup_boot_prev)
qed

theorem C4_witness:
  "prevStates (fst (loop_body (\<lambda>k. if k = 3 then LOW else HIGH) 3 (fst (setup' (boot A_uno))))) ! 3
     = LOW \<and>
   prevStates (fst (loop_body (\<lambda>k. HIGH) 3 (fst (setup' (boot A_uno))))) ! 3 = HIGH \<and>
   prevStates (fst (loop (\<lambda>k. if k = 3 then LOW else HIGH) (fst (setup' (boot A_uno))))) =
     [HIGH, HIGH, HIGH, LOW, HIGH, HIGH, HIGH, HIGH, HIGH, HIGH,
      HIGH, HIGH, HIGH, HIGH, HIGH, HIGH, HIGH, HIGH, HIGH, HIGH] \<and>
   prevStates (fst (run A_uno [\<lambda>k. if k = 3 then LOW else HIGH, \<lambda>k. HIGH])) =
     [HIGH, HIGH, HIGH, HIGH, HIGH, HIGH, HIGH, HIGH, HIGH, HIGH,
      HIGH, HIGH, HIGH, HIGH, HIGH, HIGH, HIGH, HIGH, HIGH, HIGH]"
proof -
  let ?g = "fst (setup' (boot A_uno))"
  let ?p = "\<lambda>k::nat. if k = 3 then LOW else HIGH"
  have n: "(3::nat) < numSwitches" by (simp add: numSwitches_def)
  have ng: "length (prevStates ?g) = numSwitches" by (simp add: setup_boot_prev)
  have u: "[0..<numSwitches] = [0, 1, 2, 3, 4, 5, 6, 7, 8, 9, 10, 11, 12, 13, 14, 15, 16, 17, 18, 19]"
    unfolding numSwitches_def by (simp add: upt_rec)
  show ?thesis
    using C4_prevStates_tracks_last_reading[of A_uno 3 ?g ?p "[?p, \<lambda>k. HIGH]"]
          C4_prevStates_tracks_last_reading[of A_uno 3 ?g "\<lambda>k. HIGH" "[?p]"]
    by (simp add: n ng u)
qed

subsection \<open>C5: two presses in one scan\<close>

lemma upt_split3:
  assumes "i < j" and "j < n"
  shows "[0..<n] = [0..<i] @ [i] @ [Suc i..<j] @ [j] @ [Suc j..<n]"
proof -
  have "[0..<n] = [0..<i] @ [i..<n]"
    using assms upt_add_eq_append[of 0 i "n - i"] by simp
  also have "[i..<n] = i # [Suc i..<n]" using assms by (simp add: upt_conv_Cons)
  also have "[Suc i..<n] = [Suc i..<j] @ [j..<n]"
    using assms upt_add_eq_append[of "Suc i" j "n - j"] by simp
  also have "[j..<n] = j # [Suc j..<n]" using assms by (simp add: upt_conv_Cons)
  finally show ?thesis by simp
qed

text \<open>
  Claim C5. When two channels \<open>i < j\<close> both see a press in one scan, both symbols are emitted
  in that scan and the symbol of \<open>i\<close> comes before the symbol of \<open>j\<close>: the output of the scan
  is the symbols of the pressed channels below \<open>i\<close>, the symbol of \<open>i\<close>, those between, the
  symbol of \<open>j\<close>, and those above. For the channels of \<^verbatim>\<open>'w'\<close> and \<^verbatim>\<open>'s'\<close>
  pressed together after \<^verbatim>\<open>setup\<close>, the scan emits exactly \<^verbatim>\<open>ws\<close>.
\<close>

theorem C5_two_presses_in_table_order:
  assumes "i < j" and "j < numSwitches" and "edge rd g i" and "edge rd g j"
  shows "emitted (snd (loop rd g)) =
           map (\<lambda>k. letters g ! k) (filter (edge rd g) [0..<i]) @ [letters g ! i] @
           map (\<lambda>k. letters g ! k) (filter (edge rd g) [Suc i..<j]) @ [letters g ! j] @
           map (\<lambda>k. letters g ! k) (filter (edge rd g) [Suc j..<numSwitches])"
  unfolding emitted_loop upt_split3[OF assms(1,2)] using assms(3,4) by simp

theorem C5_witness:
  "emitted (snd (loop (\<lambda>k. if k = 1 \<or> k = 2 then LOW else HIGH) (fst (setup' (boot A_uno)))))
     = ''ws''"
proof -
  let ?g = "fst (setup' (boot A_uno))"
  let ?rd = "\<lambda>k::nat. if k = 1 \<or> k = 2 then LOW else HIGH"
  have e1: "edge ?rd ?g 1" and e2: "edge ?rd ?g 2"
    by (simp_all add: edge_def setup_boot_prev numSwitches_def)
  have f0: "filter (edge ?rd ?g) [0..<1] = []"
    using HIGH_neq_LOW by (simp add: edge_def)
  have f1: "filter (edge ?rd ?g) [Suc 1..<2] = []"
    by simp
  have "\<forall>k \<in> set [Suc 2..<numSwitches]. \<not> edge ?rd ?g k"
    using HIGH_neq_LOW by (auto simp add: edge_def)
  then have f2: "filter (edge ?rd ?g) [Suc 2..<numSwitches] = []"
    by (simp only: filter_False)
  have l: "letters ?g ! 1 = CHR ''w''" "letters ?g ! 2 = CHR ''s''"
    by (simp_all add: setup_boot_letters letters_boot)
  have "(1::nat) < 2" and "(2::nat) < numSwitches" by (simp_all add: numSwitches_def)
  from C5_two_presses_in_table_order[OF this e1 e2]
  show ?thesis by (simp only: f0 f1 f2 l list.map append_Nil append_Cons)
qed

subsection \<open>C6: the readiness message\<close>

lemma println_loop_events: "filter is_println (snd (for_loop (loop_body rd) i n g)) = []"
  by (simp add: loop_events filter_concat comp_def loop_body_def Let_def)

lemma println_loop: "filter is_println (snd (loop rd g)) = []"
  by (simp add: loop_def println_loop_events)

lemma println_loops: "filter is_println (snd (loops rds g)) = []"
  by (induction rds arbitrary: g) (simp_all add: loops_Cons_snd println_loop)

lemma println_setup:
  "filter is_println (snd (setup' g)) = [SerialPrintln ''Switch detection active.'']"
  by (simp add: setup_snd setup_events filter_map comp_def)

text \<open>
  Claim C6. \<^verbatim>\<open>Serial.println\<close> is called exactly once in any run, whatever the number
  of scans, with the readiness message; that call is the last call of \<^verbatim>\<open>setup\<close>, and
  no scan and no sequence of scans calls it.
\<close>

theorem C6_readiness_message_once:
  "filter is_println (snd (run A rds)) = [SerialPrintln ''Switch detection active.''] \<and>
   snd (run A rds) = snd (setup' (boot A)) @ snd (loops rds (fst (setup' (boot A)))) \<and>
   last (snd (setup' g)) = SerialPrintln ''Switch detection active.'' \<and>
   filter is_println (snd (setup' g)) = [SerialPrintln ''Switch detection active.''] \<and>
   filter is_println (snd (loop rd g)) = [] \<and>
   filter is_println (snd (loops rds g)) = []"
  by (simp add: run_snd println_setup println_loops println_loop) (simp add: setup_snd)

subsection \<open>C7: the blocking delay\<close>

lemma dap_append:
  "delay_after_print es \<Longrightarrow> delay_after_print fs \<Longrightarrow> delay_after_print (es @ fs)"
  by (induction es rule: delay_after_print.induct) simp_all

lemma dap_concat:
  "(\<And>es. es \<in> set ess \<Longrightarrow> delay_after_print es) \<Longrightarrow> delay_after_print (concat ess)"
  by (induction ess) (simp_all add: dap_append)

lemma dap_nth:
  "delay_after_print es \<Longrightarrow> k < length es \<Longrightarrow> es ! k = SerialPrint c \<Longrightarrow>
     Suc k < length es \<and> es ! Suc k = Delay 1000"
proof (induction es arbitrary: k rule: delay_after_print.induct)
  case 1
  then show ?case by simp
next
  case (2 c' d es)
  show ?case
  proof (cases k)
    case 0
    then show ?thesis using 2 by simp
  next
    case (Suc k1)
    show ?thesis
    proof (cases k1)
      case 0
      then show ?thesis using 2 Suc by simp
    next
      case (Suc k2)
      then show ?thesis using 2 \<open>k = Suc k1\<close> by simp
    qed
  qed
qed (simp_all add: nth_Cons split: nat.splits)

lemma dap_loop_body: "delay_after_print (snd (loop_body rd k g))"
  by (simp add: loop_body_def Let_def)

lemma dap_loop: "delay_after_print (snd (loop rd g))"
  unfolding loop_def loop_events by (rule dap_concat) (auto simp add: dap_loop_body)

lemma dap_loops: "delay_after_print (snd (loops rds g))"
  by (induction rds arbitrary: g) (simp_all add: loops_Cons_snd dap_append dap_loop)

lemma dap_map_PinMode: "delay_after_print (map (\<lambda>k. PinMode (f k) m) ks)"
  by (induction ks) simp_all

lemma dap_setup: "delay_after_print (snd (setup' g))"
  by (simp add: setup_snd setup_events dap_append dap_map_PinMode)

lemma dap_run: "delay_after_print (snd (run A rds))"
  by (simp add: run_snd dap_append dap_setup dap_loops)

lemma reads_loop_body: "filter is_read (snd (loop_body rd k g)) = [DigitalRead (switchPins g ! k) (rd k)]"
  by (simp add: loop_body_def Let_def)

lemma concat_map_single: "concat (map (\<lambda>k. [f k]) ks) = map f ks"
  by (induction ks) simp_all

lemma reads_loop:
  "filter is_read (snd (loop rd g)) =
     map (\<lambda>k. DigitalRead (switchPins g ! k) (rd k)) [0..<numSwitches]"
  by (simp add: loop_def loop_events filter_concat comp_def reads_loop_body concat_map_single)

text \<open>
  Claim C7. In the call trace of any run, a \<^verbatim>\<open>Serial.print\<close> of a symbol is always
  directly followed by \<^verbatim>\<open>delay(1000)\<close>: the delay does run, and no call of
  \<^verbatim>\<open>digitalRead\<close>, for any channel, stands between the print and the end of the
  delay. A scan reads each of the 20 pins once, in table order, and makes no other read: what
  a pin does while the delay runs is not looked at.
\<close>

theorem C7_delay_before_next_read:
  "(k < length (snd (run A rds)) \<and> snd (run A rds) ! k = SerialPrint c \<longrightarrow>
      Suc k < length (snd (run A rds)) \<and> snd (run A rds) ! Suc k = Delay 1000 \<and>
      (\<forall>j. k < j \<and> j < length (snd (run A rds)) \<and> is_read (snd (run A rds) ! j) \<longrightarrow> Suc k < j)) \<and>
   filter is_read (snd (loop rd g)) =
     map (\<lambda>k. DigitalRead (switchPins g ! k) (rd k)) [0..<numSwitches]"
proof (intro conjI impI)
  assume a: "k < length (snd (run A rds)) \<and> snd (run A rds) ! k = SerialPrint c"
  then have n: "Suc k < length (snd (run A rds)) \<and> snd (run A rds) ! Suc k = Delay 1000"
    using dap_nth[OF dap_run, of k A rds c] by simp
  then show "Suc k < length (snd (run A rds))" and "snd (run A rds) ! Suc k = Delay 1000"
    by simp_all
  show "\<forall>j. k < j \<and> j < length (snd (run A rds)) \<and> is_read (snd (run A rds) ! j) \<longrightarrow> Suc k < j"
  proof (intro allI impI)
    fix j
    assume j: "k < j \<and> j < length (snd (run A rds)) \<and> is_read (snd (run A rds) ! j)"
    have "j \<noteq> Suc k" using j n by auto
    then show "Suc k < j" using j by simp
  qed
next
  show "filter is_read (snd (loop rd g)) =
     map (\<lambda>k. DigitalRead (switchPins g ! k) (rd k)) [0..<numSwitches]"
    by (rule reads_loop)
qed

text \<open>
  The whole call trace of a run on the Uno with one scan, in which channel 0 is pressed.
\<close>

lemma trace_press_a:
  "snd (run A_uno [\<lambda>k. if k = 0 then LOW else HIGH]) =
     [SerialBegin 9600, PinMode 0 INPUT_PULLUP, PinMode 1 INPUT_PULLUP,
      PinMode 2 INPUT_PULLUP, PinMode 3 INPUT_PULLUP, PinMode 4 INPUT_PULLUP,
      PinMode 5 INPUT_PULLUP, PinMode 6 INPUT_PULLUP, PinMode 7 INPUT_PULLUP,
      PinMode 8 INPUT_PULLUP, PinMode 9 INPUT_PULLUP, PinMode 10 INPUT_PULLUP,
      PinMode 11 INPUT_PULLUP, PinMode 12 INPUT_PULLUP, PinMode 13 INPUT_PULLUP,
      PinMode 19 INPUT_PULLUP, PinMode 18 INPUT_PULLUP, PinMode 17 INPUT_PULLUP,
      PinMode 16 INPUT_PULLUP, PinMode 15 INPUT_PULLUP, PinMode 14 INPUT_PULLUP,
      SerialPrintln ''Switch detection active.'', DigitalRead 0 LOW, SerialPrint (CHR ''a''),
      Delay 1000, DigitalRead 1 HIGH, DigitalRead 2 HIGH, DigitalRead 3 HIGH,
      DigitalRead 4 HIGH, DigitalRead 5 HIGH, DigitalRead 6 HIGH, DigitalRead 7 HIGH,
      DigitalRead 8 HIGH, DigitalRead 9 HIGH, DigitalRead 10 HIGH, DigitalRead 11 HIGH,
      DigitalRead 12 HIGH, DigitalRead 13 HIGH, DigitalRead 19 HIGH, DigitalRead 18 HIGH,
      DigitalRead 17 HIGH, DigitalRead 16 HIGH, DigitalRead 15 HIGH, DigitalRead 14 HIGH]"
  by code_simp

theorem C7_witness:
  "snd (run A_uno [\<lambda>k. if k = 0 then LOW else HIGH]) ! 23 = SerialPrint (CHR ''a'') \<and>
   snd (run A_uno [\<lambda>k. if k = 0 then LOW else HIGH]) ! 24 = Delay 1000 \<and>
   snd (run A_uno [\<lambda>k. if k = 0 then LOW else HIGH]) ! 25 = DigitalRead 1 HIGH"
proof -
  let ?tr = "snd (run A_uno [\<lambda>k. if k = 0 then LOW else HIGH])"
  have h: "23 < length ?tr \<and> ?tr ! 23 = SerialPrint (CHR ''a'')"
    by (simp add: trace_press_a)
  have r: "?tr ! 25 = DigitalRead 1 HIGH"
    by (simp add: trace_press_a)
  have "?tr ! Suc 23 = Delay 1000"
    using C7_delay_before_next_read[of 23 A_uno "[\<lambda>k. if k = 0 then LOW else HIGH]" "CHR ''a''"] h
    by blast
  then show ?thesis using h r by simp
qed

subsection \<open>C8: the tables are not written\<close>

lemma loops_frame: "fst (loops rds g) = g\<lparr>prevStates := prevStates (fst (loops rds g))\<rparr>"
  by (rule globals.equality) (simp_all add: loops_tables)

text \<open>
  Claim C8. The three arrays have 20 entries each. \<^verbatim>\<open>setup\<close>, a scan, and any number
  of scans change nothing of the memory but the contents of \<^verbatim>\<open>prevStates\<close>, whose
  length they keep; so after any run the pin table and the symbol table are those of
  power-on and \<^verbatim>\<open>prevStates\<close> still has 20 entries.
\<close>

theorem C8_tables_never_written:
  "length (switchPins (boot A)) = 20 \<and> length (letters (boot A)) = 20 \<and>
   length (prevStates (boot A)) = 20 \<and> numSwitches = 20 \<and>
   fst (setup' g) = g\<lparr>prevStates := prevStates (fst (setup' g))\<rparr> \<and>
   length (prevStates (fst (setup' g))) = length (prevStates g) \<and>
   fst (loop_body rd i g) = g\<lparr>prevStates := prevStates (fst (loop_body rd i g))\<rparr> \<and>
   length (prevStates (fst (loop_body rd i g))) = length (prevStates g) \<and>
   fst (loop rd g) = g\<lparr>prevStates := prevStates (fst (loop rd g))\<rparr> \<and>
   length (prevStates (fst (loop rd g))) = length (prevStates g) \<and>
   fst (loops rds g) = g\<lparr>prevStates := prevStates (fst (loops rds g))\<rparr> \<and>
   length (prevStates (fst (loops rds g))) = length (prevStates g) \<and>
   switchPins (fst (run A rds)) = switchPins (boot A) \<and>
   letters (fst (run A rds)) = letters (boot A) \<and>
   length (prevStates (fst (run A rds))) = 20"
proof -
  have sizes: "length (switchPins (boot A)) = 20 \<and> length (letters (boot A)) = 20 \<and>
      length (prevStates (boot A)) = 20 \<and> numSwitches = 20"
    by (simp add: boot_def numSwitches_def)
  have run_tables: "switchPins (fst (run A rds)) = switchPins (boot A) \<and>
      letters (fst (run A rds)) = letters (boot A) \<and>
      length (prevStates (fst (run A rds))) = 20"
    using sizes by (simp add: run_fst loops_tables setup_tables)
  have body: "fst (loop_body rd i g) = g\<lparr>prevStates := prevStates (fst (loop_body rd i g))\<rparr> \<and>
      length (prevStates (fst (loop_body rd i g))) = length (prevStates g)"
    by (simp add: loop_body_fst)
  show ?thesis
    using sizes run_tables body setup_frame[of g] setup_tables[of g] loop_frame[of rd g]
      loop_tables[of rd g] loops_frame[of rds g] loops_tables[of rds g]
    by blast
qed

subsection \<open>C9: the symbols are pairwise distinct\<close>

lemma set_emitted_loop: "letters g = letters (boot A) \<Longrightarrow> set (emitted (snd (loop rd g))) \<subseteq> set (letters (boot A))"
  by (auto simp add: emitted_loop length_letters_boot)

lemma set_emitted_loops:
  "letters g = letters (boot A) \<Longrightarrow> set (emitted (snd (loops rds g))) \<subseteq> set (letters (boot A))"
proof (induction rds arbitrary: g)
  case Nil
  show ?case by simp
next
  case (Cons rd rds)
  have "set (emitted (snd (loops rds (fst (loop rd g))))) \<subseteq> set (letters (boot A))"
    using Cons.prems by (intro Cons.IH) (simp add: loop_letters)
  then show ?case using set_emitted_loop[OF Cons.prems, of rd]
    by (simp add: loops_Cons_snd emitted_append)
qed

lemma nth_mem_map_filter:
  assumes "distinct ys" and "i < length ys" and "n \<le> length ys"
  shows "(ys ! i \<in> set (map (\<lambda>k. ys ! k) (filter P [0..<n]))) = (i < n \<and> P i)"
proof
  assume "ys ! i \<in> set (map (\<lambda>k. ys ! k) (filter P [0..<n]))"
  then obtain k where k: "k < n" "P k" "ys ! k = ys ! i" by auto
  then have "k = i" using assms by (simp add: nth_eq_iff_index_eq)
  then show "i < n \<and> P i" using k by simp
next
  assume "i < n \<and> P i"
  then show "ys ! i \<in> set (map (\<lambda>k. ys ! k) (filter P [0..<n]))" by auto
qed

lemma symbol_emitted_in_scan_iff:
  assumes "letters g = letters (boot A)" and "i < numSwitches"
  shows "(letters g ! i \<in> set (emitted (snd (loop rd g)))) =
           (rd i = LOW \<and> prevStates g ! i = HIGH)"
  using nth_mem_map_filter[of "letters g" i numSwitches "\<lambda>k. rd k = LOW \<and> prevStates g ! k = HIGH"]
    assms
  by (simp add: emitted_loop edge_fun distinct_letters_boot length_letters_boot)

lemma symbol_emitted_in_run_iff:
  assumes "i < numSwitches"
  shows "(letters (boot A) ! i \<in> set (emitted (snd (run A rds)))) =
           (\<exists>(prev, rd) \<in> set (zip ((\<lambda>k. HIGH) # rds) rds). rd i = LOW \<and> prev i = HIGH)"
proof -
  have one: "(letters (boot A) ! i \<in>
        set (map (\<lambda>k. letters (boot A) ! k) (filter (\<lambda>k. rd k = LOW \<and> prev k = HIGH) [0..<numSwitches])))
      = (rd i = LOW \<and> prev i = HIGH)" for prev rd :: "nat \<Rightarrow> int"
    using nth_mem_map_filter[of "letters (boot A)" i numSwitches "\<lambda>k. rd k = LOW \<and> prev k = HIGH"]
      assms
    by (simp add: distinct_letters_boot length_letters_boot)
  show ?thesis
    unfolding emitted_run_presses set_concat set_map
    using one by (auto simp del: set_map)
qed

text \<open>
  Claim C9. The 20 symbols of the table are pairwise distinct, and every character that a
  run emits is the symbol of exactly one channel. That channel is the one whose press
  produced it: the step of a scan for channel \<open>i\<close> emits the symbol of \<open>i\<close> when it sees a
  press and nothing otherwise, so the symbol of \<open>i\<close> is in the output of a scan exactly
  when channel \<open>i\<close> saw a press in it, and in the output of a run exactly when in some scan
  of the run channel \<open>i\<close> read low after reading high in the scan before (or, for the first
  scan, after \<^verbatim>\<open>setup\<close>). The output of a run is, scan by scan, the symbols of the
  channels that saw a press, in table order.
\<close>

theorem C9_symbols_identify_channels:
  "distinct (letters (boot A)) \<and> length (letters (boot A)) = numSwitches \<and>
   (i < numSwitches \<and> j < numSwitches \<and> letters (boot A) ! i = letters (boot A) ! j \<longrightarrow> i = j) \<and>
   (c \<in> set (emitted (snd (run A rds))) \<longrightarrow>
      (\<exists>!i. i < numSwitches \<and> letters (fst (run A rds)) ! i = c)) \<and>
   emitted (snd (loop_body rd i g)) =
     (if rd i = LOW \<and> prevStates g ! i = HIGH then [letters g ! i] else []) \<and>
   (letters g = letters (boot A) \<and> i < numSwitches \<longrightarrow>
      (letters g ! i \<in> set (emitted (snd (loop rd g)))) =
      (rd i = LOW \<and> prevStates g ! i = HIGH)) \<and>
   emitted (snd (run A rds)) =
     concat (map (\<lambda>(prev, r). map (\<lambda>k. letters (boot A) ! k)
                                    (filter (\<lambda>k. r k = LOW \<and> prev k = HIGH) [0..<numSwitches]))
                 (zip ((\<lambda>k. HIGH) # rds) rds)) \<and>
   (i < numSwitches \<longrightarrow>
      (letters (boot A) ! i \<in> set (emitted (snd (run A rds)))) =
      (\<exists>(prev, r) \<in> set (zip ((\<lambda>k. HIGH) # rds) rds). r i = LOW \<and> prev i = HIGH))"
proof (intro conjI impI)
  show d: "distinct (letters (boot A))" by (rule distinct_letters_boot)
  show n: "length (letters (boot A)) = numSwitches" by (rule length_letters_boot)
  show "i = j"
    if "i < numSwitches \<and> j < numSwitches \<and> letters (boot A) ! i = letters (boot A) ! j"
    using that d n nth_eq_iff_index_eq[of "letters (boot A)" i j] by simp
  show "\<exists>!i. i < numSwitches \<and> letters (fst (run A rds)) ! i = c"
    if "c \<in> set (emitted (snd (run A rds)))"
  proof -
    have l: "letters (fst (run A rds)) = letters (boot A)"
      by (simp add: run_fst loops_tables setup_tables)
    have "c \<in> set (letters (boot A))"
      using that set_emitted_loops[of "fst (setup' (boot A))" A rds]
      by (auto simp add: emitted_run setup_boot_letters)
    then obtain i where "i < numSwitches" and "letters (boot A) ! i = c"
      using n by (auto simp add: in_set_conv_nth)
    then show ?thesis using d n l by (auto simp add: nth_eq_iff_index_eq)
  qed
  show "emitted (snd (loop_body rd i g)) =
     (if rd i = LOW \<and> prevStates g ! i = HIGH then [letters g ! i] else [])"
    by (simp add: loop_body_trace)
  show "(letters g ! i \<in> set (emitted (snd (loop rd g)))) =
      (rd i = LOW \<and> prevStates g ! i = HIGH)"
    if "letters g = letters (boot A) \<and> i < numSwitches"
    using that symbol_emitted_in_scan_iff[of g A i rd] by simp
  show "emitted (snd (run A rds)) =
     concat (map (\<lambda>(prev, r). map (\<lambda>k. letters (boot A) ! k)
                                    (filter (\<lambda>k. r k = LOW \<and> prev k = HIGH) [0..<numSwitches]))
                 (zip ((\<lambda>k. HIGH) # rds) rds))"
    by (rule emitted_run_presses)
  show "(letters (boot A) ! i \<in> set (emitted (snd (run A rds)))) =
      (\<exists>(prev, r) \<in> set (zip ((\<lambda>k. HIGH) # rds) rds). r i = LOW \<and> prev i = HIGH)"
    if "i < numSwitches"
    using that by (rule symbol_emitted_in_run_iff)
qed

text \<open>
  On the Uno, one scan after \<^verbatim>\<open>setup\<close> in which channels 5 and 19 are pressed: the
  run emits \<^verbatim>\<open>cp\<close>, the symbols of channels 5 and 19, and not the symbol of channel 0.
\<close>

theorem C9_witness:
  "emitted (snd (run A_uno [\<lambda>k. if k = 5 \<or> k = 19 then LOW else HIGH])) = ''cp'' \<and>
   CHR ''c'' \<in> set (emitted (snd (run A_uno [\<lambda>k. if k = 5 \<or> k = 19 then LOW else HIGH]))) \<and>
   CHR ''a'' \<notin> set (emitted (snd (run A_uno [\<lambda>k. if k = 5 \<or> k = 19 then LOW else HIGH]))) \<and>
   (\<exists>!i. i < numSwitches \<and>
      letters (fst (run A_uno [\<lambda>k. if k = 5 \<or> k = 19 then LOW else HIGH])) ! i = CHR ''c'') \<and>
   emitted (snd (loop_body (\<lambda>k. if k = 5 \<or> k = 19 then LOW else HIGH) 5
                   (fst (setup' (boot A_uno))))) = ''c'' \<and>
   emitted (snd (loop_body (\<lambda>k. if k = 5 \<or> k = 19 then LOW else HIGH) 0
                   (fst (setup' (boot A_uno))))) = []"
proof -
  let ?q = "\<lambda>k::nat. if k = 5 \<or> k = 19 then LOW else HIGH"
  let ?g = "fst (setup' (boot A_uno))"
  have n: "(5::nat) < numSwitches" "(0::nat) < numSwitches" by (simp_all add: numSwitches_def)
  have lg: "letters ?g = letters (boot A_uno)" by (rule setup_boot_letters)
  have pg: "prevStates ?g ! 5 = HIGH" "prevStates ?g ! 0 = HIGH"
    by (simp_all add: setup_boot_prev numSwitches_def)
  have l: "letters (boot A_uno) ! 5 = CHR ''c''" "letters (boot A_uno) ! 0 = CHR ''a''"
    by (simp_all add: letters_boot)
  note five = C9_symbols_identify_channels[where A = A_uno and i = 5 and j = 5 and c = "CHR ''c''"
      and rds = "[?q]" and rd = ?q and g = ?g]
  note zero = C9_symbols_identify_channels[where A = A_uno and i = 0 and j = 0 and c = "CHR ''c''"
      and rds = "[?q]" and rd = ?q and g = ?g]
  have out: "emitted (snd (run A_uno [?q])) = ''cp''"
    using five HIGH_neq_LOW by (simp add: upt_numSwitches letters_boot)
  have iff5: "(letters (boot A_uno) ! 5 \<in> set (emitted (snd (run A_uno [?q])))) =
      (\<exists>(prev, r) \<in> set (zip ((\<lambda>k. HIGH) # [?q]) [?q]). r 5 = LOW \<and> prev 5 = HIGH)"
    using five n(1) by blast
  have iff0: "(letters (boot A_uno) ! 0 \<in> set (emitted (snd (run A_uno [?q])))) =
      (\<exists>(prev, r) \<in> set (zip ((\<lambda>k. HIGH) # [?q]) [?q]). r 0 = LOW \<and> prev 0 = HIGH)"
    using zero n(2) by blast
  have c: "CHR ''c'' \<in> set (emitted (snd (run A_uno [?q])))"
    using iff5 by (simp add: l)
  have a: "CHR ''a'' \<notin> set (emitted (snd (run A_uno [?q])))"
    using iff0 HIGH_neq_LOW by (simp add: l)
  have u: "\<exists>!i. i < numSwitches \<and> letters (fst (run A_uno [?q])) ! i = CHR ''c''"
    using five c by blast
  have s5: "emitted (snd (loop_body ?q 5 ?g)) = ''c''"
    using five by (simp add: pg lg l)
  have s0: "emitted (snd (loop_body ?q 0 ?g)) = []"
    using zero HIGH_neq_LOW by simp
  show ?thesis using out c a u s5 s0 by blast
qed

subsection \<open>C10: the output is a function of the levels read\<close>

lemma for_loop_cong:
  "(\<And>k h. i \<le> k \<Longrightarrow> k < n \<Longrightarrow> body1 k h = body2 k h) \<Longrightarrow>
     for_loop body1 i n g = for_loop body2 i n g"
proof (induction "n - i" arbitrary: i g)
  case 0
  then show ?case by (simp add: for_loop_done)
next
  case (Suc d)
  then have lt: "i < n" and d: "d = n - Suc i" by simp_all
  have b: "body1 i g = body2 i g" using Suc.prems lt by simp
  have "for_loop body1 (Suc i) n (fst (body2 i g)) = for_loop body2 (Suc i) n (fst (body2 i g))"
    using Suc.prems by (intro Suc.hyps(1)[OF d]) simp
  then show ?case using lt b by (simp add: for_loop_step)
qed

lemma loop_cong_reads: "(\<forall>i<numSwitches. r1 i = r2 i) \<Longrightarrow> loop r1 g = loop r2 g"
  unfolding loop_def by (rule for_loop_cong) (simp add: loop_body_def)

lemma loops_cong_reads:
  "list_all2 (\<lambda>r1 r2. \<forall>i<numSwitches. r1 i = r2 i) rds1 rds2 \<Longrightarrow> loops rds1 g = loops rds2 g"
proof (induction rds1 rds2 arbitrary: g rule: list_all2_induct)
  case Nil
  show ?case by simp
next
  case (Cons r1 rds1 r2 rds2)
  have "loop r1 g = loop r2 g" using Cons.hyps(1) by (rule loop_cong_reads)
  then show ?case using Cons.IH[of "fst (loop r2 g)"]
    by (simp add: prod_eq_iff loops_Cons_fst loops_Cons_snd)
qed

lemma loop_depends:
  assumes "prevStates g1 = prevStates g2" and "letters g1 = letters g2"
  shows "emitted (snd (loop rd g1)) = emitted (snd (loop rd g2)) \<and>
         prevStates (fst (loop rd g1)) = prevStates (fst (loop rd g2))"
proof
  have "edge rd g1 = edge rd g2" using assms(1) by (simp add: fun_eq_iff edge_def)
  then show "emitted (snd (loop rd g1)) = emitted (snd (loop rd g2))"
    using assms(2) by (simp add: emitted_loop)
  show "prevStates (fst (loop rd g1)) = prevStates (fst (loop rd g2))"
    using assms(1) by (intro nth_equalityI) (simp_all add: loop_length loop_prev)
qed

lemma loops_depends:
  assumes "prevStates g1 = prevStates g2" and "letters g1 = letters g2"
  shows "emitted (snd (loops rds g1)) = emitted (snd (loops rds g2)) \<and>
         prevStates (fst (loops rds g1)) = prevStates (fst (loops rds g2))"
  using assms
proof (induction rds arbitrary: g1 g2)
  case Nil
  then show ?case by simp
next
  case (Cons rd rds)
  have one: "emitted (snd (loop rd g1)) = emitted (snd (loop rd g2)) \<and>
      prevStates (fst (loop rd g1)) = prevStates (fst (loop rd g2))"
    using Cons.prems by (rule loop_depends)
  have "letters (fst (loop rd g1)) = letters (fst (loop rd g2))"
    using Cons.prems(2) by (simp add: loop_letters)
  then show ?case using Cons.IH[of "fst (loop rd g1)" "fst (loop rd g2)"] one
    by (simp add: loops_Cons_fst loops_Cons_snd emitted_append)
qed

text \<open>
  Claim C10. Two runs on the same board whose scans read the same levels (scan by scan,
  channel by channel) make the same calls, emit the same characters and end with the same
  \<^verbatim>\<open>prevStates\<close>. And of the memory only \<^verbatim>\<open>prevStates\<close> (with the constant
  symbol table) matters: scans started from two memories that agree on these emit the same
  characters and end with the same \<^verbatim>\<open>prevStates\<close>.
\<close>

theorem C10_output_determined_by_readings:
  "(list_all2 (\<lambda>r1 r2. \<forall>i<numSwitches. r1 i = r2 i) rds1 rds2 \<longrightarrow>
      snd (run A rds1) = snd (run A rds2) \<and>
      emitted (snd (run A rds1)) = emitted (snd (run A rds2)) \<and>
      prevStates (fst (run A rds1)) = prevStates (fst (run A rds2))) \<and>
   (prevStates g1 = prevStates g2 \<and> letters g1 = letters g2 \<longrightarrow>
      emitted (snd (loops rds g1)) = emitted (snd (loops rds g2)) \<and>
      prevStates (fst (loops rds g1)) = prevStates (fst (loops rds g2)))"
proof (intro conjI impI)
  assume "list_all2 (\<lambda>r1 r2. \<forall>i<numSwitches. r1 i = r2 i) rds1 rds2"
  then have "run A rds1 = run A rds2"
    by (simp add: run_def loops_cong_reads[of rds1 rds2])
  then show "snd (run A rds1) = snd (run A rds2)"
    and "emitted (snd (run A rds1)) = emitted (snd (run A rds2))"
    and "prevStates (fst (run A rds1)) = prevStates (fst (run A rds2))"
    by simp_all
next
  assume a: "prevStates g1 = prevStates g2 \<and> letters g1 = letters g2"
  then show "emitted (snd (loops rds g1)) = emitted (snd (loops rds g2))"
    and "prevStates (fst (loops rds g1)) = prevStates (fst (loops rds g2))"
    using loops_depends[of g1 g2 rds] by simp_all
qed

theorem C10_witness:
  "emitted (snd (run A_uno [\<lambda>k. if k = 0 then LOW else if k < 20 then HIGH else 7])) = ''a'' \<and>
   emitted (snd (loops [\<lambda>k. if k = 0 then LOW else HIGH]
                   (fst (setup' (boot (\<lambda>n. 54 + int n)))))) = ''a''"
proof -
  let ?p = "\<lambda>k::nat. if k = 0 then LOW else HIGH"
  let ?q = "\<lambda>k::nat. if k = 0 then LOW else if k < 20 then HIGH else 7"
  let ?g1 = "fst (setup' (boot A_uno))"
  let ?g2 = "fst (setup' (boot (\<lambda>n. 54 + int n)))"
  have same: "list_all2 (\<lambda>r1 r2. \<forall>i<numSwitches. r1 i = r2 i) [?p] [?q]"
    by (simp add: numSwitches_def)
  have mem: "prevStates ?g1 = prevStates ?g2 \<and> letters ?g1 = letters ?g2"
    by (simp add: setup_boot_prev setup_boot_letters letters_boot)
  have a: "emitted (snd (run A_uno [?p])) = ''a''"
    by (simp add: trace_press_a)
  then have b: "emitted (snd (loops [?p] ?g1)) = ''a''"
    by (simp add: emitted_run)
  show ?thesis
    using C10_output_determined_by_readings[of "[?p]" "[?q]" A_uno ?g1 ?g2 "[?p]"] same mem a b
    by simp
qed

end
